theory Spec2Isabelle
  imports Complex_Main "HOL-Library.Word"
begin

unbundle bit_operations_syntax

section \<open>The TTL cache: \<open>cached_property\<close> of \<open>asm/util.py\<close>\<close>

text \<open>
  The descriptor keeps its values in the \<open>_cache\<close> attribute of the owner instance,
  a dict from property names to pairs \<open>(value, last_update)\<close>. Dicts are mutable
  objects that several instances could refer to, so the model has an explicit store:
  owner instances and dict objects are addresses, \<open>cache h inst\<close> is what
  \<open>inst._cache\<close> evaluates to (\<open>None\<close> when the attribute lookup raises
  \<open>AttributeError\<close>), and \<open>dicts h r\<close> is the content of the dict object \<open>r\<close>.
  \<open>next_ref\<close> is the first address not yet handed out, so that the literal \<open>{}\<close>
  yields an object distinct from the ones in use. \<open>world\<close> is all other state the
  wrapped computation reads and changes.

  Times are the values of \<open>time.monotonic()\<close>, idealised as real numbers; each read
  receives the clock value \<open>now\<close> as an argument.
\<close>

type_synonym oid = nat
type_synonym ref = nat
type_synonym 'v dict = "string \<rightharpoonup> ('v \<times> real)"

record ('v, 'w) heap =
  cache :: "oid \<Rightarrow> ref option"
  dicts :: "ref \<Rightarrow> 'v dict"
  next_ref :: ref
  world :: 'w

text \<open>
  The decorator object: \<open>self.ttl\<close>, \<open>self.__name__\<close> and \<open>self.fget\<close>. The
  wrapped computation gets the instance and may change any part of the heap; it either
  returns a value (\<open>Inr\<close>) or raises an exception (\<open>Inl\<close>).
\<close>

record ('v, 'w, 'e) cached_property =
  ttl :: real
  name :: string
  fget :: "oid \<Rightarrow> ('v, 'w) heap \<Rightarrow> ('e + 'v) \<times> ('v, 'w) heap"

datatype lookup_error = KeyError | AttributeError

text \<open>
  The body of the \<open>try\<close> block of \<open>__get__\<close>:
  \<^verbatim>\<open>
      value, last_update = inst._cache[self.__name__]
      if self.ttl > 0 and now - last_update > self.ttl:
          raise AttributeError
  \<close>
\<close>

definition try_cached ::
  "('v, 'w, 'e) cached_property \<Rightarrow> real \<Rightarrow> oid \<Rightarrow> ('v, 'w) heap \<Rightarrow> lookup_error + 'v" where
  "try_cached p now inst h =
     (case cache h inst of
        None \<Rightarrow> Inl AttributeError
      | Some r \<Rightarrow>
          (case dicts h r (name p) of
             None \<Rightarrow> Inl KeyError
           | Some (val, last_update) \<Rightarrow>
               if ttl p > 0 \<and> now - last_update > ttl p then Inl AttributeError
               else Inr val))"

text \<open>
  The end of the \<open>except\<close> handler:
  \<^verbatim>\<open>
      try:
          cache = inst._cache
      except AttributeError:
          cache = inst._cache = {}
      cache[self.__name__] = (value, now)
  \<close>
\<close>

definition store :: "string \<Rightarrow> 'v \<times> real \<Rightarrow> oid \<Rightarrow> ('v, 'w) heap \<Rightarrow> ('v, 'w) heap" where
  "store key ent inst h =
     (case cache h inst of
        Some r \<Rightarrow> h\<lparr>dicts := (dicts h)(r := (dicts h r)(key \<mapsto> ent))\<rparr>
      | None \<Rightarrow>
          (let r = next_ref h
           in h\<lparr>cache := (cache h)(inst \<mapsto> r),
                dicts := (dicts h)(r := Map.empty(key \<mapsto> ent)),
                next_ref := Suc r\<rparr>))"

text \<open>
  \<open>__get__\<close>. The state is the heap paired with a counter of the invocations of the
  wrapped computation made so far; the counter is instrumentation, out of the
  computation's reach. An exception of the computation leaves the handler at once.
\<close>

definition get ::
  "('v, 'w, 'e) cached_property \<Rightarrow> real \<Rightarrow> oid \<Rightarrow> ('v, 'w) heap \<times> nat
     \<Rightarrow> ('e + 'v) \<times> ('v, 'w) heap \<times> nat" where
  "get p now inst s =
     (case s of (h, calls) \<Rightarrow>
        (case try_cached p now inst h of
           Inr val \<Rightarrow> (Inr val, h, calls)
         | Inl _ \<Rightarrow>
             (case fget p inst h of
                (Inl e, h1) \<Rightarrow> (Inl e, h1, Suc calls)
              | (Inr val, h1) \<Rightarrow>
                  (Inr val, store (name p) (val, now) inst h1, Suc calls))))"

text \<open>What \<open>inst._cache[key]\<close> holds, \<open>None\<close> when the attribute or the key is missing.\<close>

definition entry :: "('v, 'w) heap \<Rightarrow> oid \<Rightarrow> string \<Rightarrow> ('v \<times> real) option" where
  "entry h inst key = (case cache h inst of None \<Rightarrow> None | Some r \<Rightarrow> dicts h r key)"

text \<open>Manual invalidation, as the docstring gives it: \<open>del instance._cache[<property name>]\<close>.\<close>

definition invalidate :: "string \<Rightarrow> oid \<Rightarrow> ('v, 'w) heap \<Rightarrow> lookup_error + ('v, 'w) heap" where
  "invalidate key inst h =
     (case cache h inst of
        None \<Rightarrow> Inl AttributeError
      | Some r \<Rightarrow>
          (case dicts h r key of
             None \<Rightarrow> Inl KeyError
           | Some _ \<Rightarrow> Inr (h\<lparr>dicts := (dicts h)(r := (dicts h r)(key := None))\<rparr>)))"

text \<open>A sequence of read accesses of one property on one instance, at the given clock values.\<close>

fun reads ::
  "('v, 'w, 'e) cached_property \<Rightarrow> real list \<Rightarrow> oid \<Rightarrow> ('v, 'w) heap \<times> nat
     \<Rightarrow> ('e + 'v) list \<times> ('v, 'w) heap \<times> nat" where
  "reads p [] inst s = ([], s)"
| "reads p (now # ts) inst s =
     (case get p now inst s of
        (r, s1) \<Rightarrow> (case reads p ts inst s1 of (rs, s2) \<Rightarrow> (r # rs, s2)))"

subsection \<open>Concrete instances used in the examples\<close>

text \<open>
  The computation of the specification's scenario: it returns a counter kept in the
  world and increments it.
\<close>

definition counter_fget :: "oid \<Rightarrow> (nat, nat) heap \<Rightarrow> (string + nat) \<times> (nat, nat) heap" where
  "counter_fget inst h = (Inr (world h), h\<lparr>world := Suc (world h)\<rparr>)"

definition failing_fget :: "oid \<Rightarrow> (nat, nat) heap \<Rightarrow> (string + nat) \<times> (nat, nat) heap" where
  "failing_fget inst h = (Inl ''RuntimeError'', h\<lparr>world := Suc (world h)\<rparr>)"

definition counter_prop :: "real \<Rightarrow> (nat, nat, string) cached_property" where
  "counter_prop t = \<lparr>ttl = t, name = ''randint'', fget = counter_fget\<rparr>"

definition failing_prop :: "real \<Rightarrow> (nat, nat, string) cached_property" where
  "failing_prop t = \<lparr>ttl = t, name = ''randint'', fget = failing_fget\<rparr>"

text \<open>A heap of fresh instances: no instance has a \<open>_cache\<close> attribute yet.\<close>

definition fresh_heap :: "(nat, nat) heap" where
  "fresh_heap = \<lparr>cache = (\<lambda>_. None), dicts = (\<lambda>_. Map.empty), next_ref = 0, world = 0\<rparr>"

text \<open>Instance 0 holds the entry \<open>(v, t)\<close> for \<open>randint\<close> in dict 0; the counter stands at \<open>c\<close>.\<close>

definition cached_heap :: "nat \<Rightarrow> real \<Rightarrow> nat \<Rightarrow> (nat, nat) heap" where
  "cached_heap v t c =
     \<lparr>cache = (\<lambda>_. None)(0 \<mapsto> 0),
      dicts = (\<lambda>_. Map.empty)(0 := Map.empty(''randint'' \<mapsto> (v, t))),
      next_ref = 1, world = c\<rparr>"

subsection \<open>Histories of accesses\<close>

text \<open>
  The caches of a program come about by read accesses and manual invalidations on
  instances that start without a \<open>_cache\<close> attribute. A history is such a sequence of
  accesses, of any properties on any instances; a \<open>del\<close> that raises leaves the heap as
  it is.
\<close>

datatype ('v, 'w, 'e) access =
    Read "('v, 'w, 'e) cached_property" real oid
  | Delete string oid

fun history ::
  "('v, 'w, 'e) access list \<Rightarrow> ('v, 'w) heap \<times> nat \<Rightarrow> ('v, 'w) heap \<times> nat" where
  "history [] s = s"
| "history (Read p now inst # as) s = history as (snd (get p now inst s))"
| "history (Delete key inst # as) s =
     (case invalidate key inst (fst s) of
        Inl _ \<Rightarrow> history as s
      | Inr h' \<Rightarrow> history as (h', snd s))"

text \<open>
  A wrapped computation that leaves the cache machinery's own data alone: it neither
  rebinds a \<open>_cache\<close> attribute nor writes into a cache dict (it may create objects).
\<close>

definition leaves_caches :: "(oid \<Rightarrow> ('v, 'w) heap \<Rightarrow> ('e + 'v) \<times> ('v, 'w) heap) \<Rightarrow> bool" where
  "leaves_caches f =
     (\<forall>inst h. cache (snd (f inst h)) = cache h \<and> dicts (snd (f inst h)) = dicts h \<and>
        next_ref h \<le> next_ref (snd (f inst h)))"

fun tame :: "('v, 'w, 'e) access \<Rightarrow> bool" where
  "tame (Read p now inst) = leaves_caches (fget p)"
| "tame (Delete key inst) = True"

text \<open>
  The data model's invariant: every cache dict belongs to one instance only, and is an
  object that has been created.
\<close>

definition per_instance :: "('v, 'w) heap \<Rightarrow> bool" where
  "per_instance h =
     ((\<forall>i j r. cache h i = Some r \<longrightarrow> cache h j = Some r \<longrightarrow> i = j) \<and>
      (\<forall>i r. cache h i = Some r \<longrightarrow> r < next_ref h))"

section \<open>The process lock: \<open>AsmProcessLock.__init__\<close> of \<open>asm/util.py\<close>\<close>

text \<open>
  The constructor works on the file system through \<open>exists\<close>, \<open>open\<close> and
  \<open>chmod\<close>. A file system maps paths to files, each with its owner, its permission
  bits and its content; a process has a user id and a file-creation mask. Whether the
  operating system lets a process open an existing file for update (permission bits,
  groups, access lists, protections of the directory) is a parameter \<open>may_open\<close> of
  the model; \<open>chmod\<close> is permitted to the owner of the file and to the superuser. The
  temporary directory is taken to allow the creation of files, and no one else touches
  the path.
\<close>

record file_entry =
  owner :: nat
  mode :: "32 word"
  data :: string

type_synonym fs = "string \<rightharpoonup> file_entry"

record process =
  uid :: nat
  umask :: "32 word"

datatype os_error = PermissionError | FileNotFoundError

text \<open>\<open>os.path.join\<close> on POSIX, for two components.\<close>

definition join :: "string \<Rightarrow> string \<Rightarrow> string" where
  "join a b =
     (if b \<noteq> [] \<and> hd b = CHR ''/'' then b
      else if a = [] \<or> last a = CHR ''/'' then a @ b
      else a @ ''/'' @ b)"

definition lock_path :: "string \<Rightarrow> string" where
  "lock_path gettempdir = join gettempdir ''asm_lock''"

definition exists :: "fs \<Rightarrow> string \<Rightarrow> bool" where
  "exists fs path = (fs path \<noteq> None)"

text \<open>
  \<open>open(path, '+w')\<close>: a missing file is created empty, owned by the caller, with
  mode \<open>0o666 & ~umask\<close> (\<open>0o666 = 438\<close>); an existing file is truncated and keeps its
  owner and mode.
\<close>

definition open_w ::
  "(process \<Rightarrow> file_entry \<Rightarrow> bool) \<Rightarrow> process \<Rightarrow> string \<Rightarrow> fs \<Rightarrow> os_error + fs" where
  "open_w may_open P path fs =
     (case fs path of
        None \<Rightarrow> Inr (fs(path \<mapsto> \<lparr>owner = uid P, mode = 438 AND NOT (umask P), data = []\<rparr>))
      | Some f \<Rightarrow>
          if may_open P f then Inr (fs(path \<mapsto> f\<lparr>data := []\<rparr>)) else Inl PermissionError)"

definition chmod :: "process \<Rightarrow> string \<Rightarrow> 32 word \<Rightarrow> fs \<Rightarrow> os_error + fs" where
  "chmod P path m fs =
     (case fs path of
        None \<Rightarrow> Inl FileNotFoundError
      | Some f \<Rightarrow>
          if uid P = 0 \<or> uid P = owner f then Inr (fs(path \<mapsto> f\<lparr>mode := m\<rparr>))
          else Inl PermissionError)"

text \<open>
  The constructor up to the call of the superclass constructor, which only records the
  path (\<open>0o777 = 511\<close>):
  \<^verbatim>\<open>
      if not exists(lock_path):
          lock_file = open(lock_path, '+w')
          lock_file.close()
          chmod(lock_path, 0o777)
  \<close>
  The result is the exception raised, if any, and the file system left behind.
\<close>

definition init ::
  "(process \<Rightarrow> file_entry \<Rightarrow> bool) \<Rightarrow> string \<Rightarrow> process \<Rightarrow> fs \<Rightarrow> os_error option \<times> fs" where
  "init may_open path P fs =
     (if \<not> exists fs path then
        (case open_w may_open P path fs of
           Inl e \<Rightarrow> (Some e, fs)
         | Inr fs1 \<Rightarrow>
             (case chmod P path 511 fs1 of
                Inl e \<Rightarrow> (Some e, fs1)
              | Inr fs2 \<Rightarrow> (None, fs2)))
      else (None, fs))"

text \<open>
  For two processes that run the constructor at the same time, each call of the
  operating system is one atomic step, and a process is at one of four statements, has
  finished, or has raised.
\<close>

datatype pc = AtExists | AtOpen | AtClose | AtChmod | Finished | Raised os_error

fun step ::
  "(process \<Rightarrow> file_entry \<Rightarrow> bool) \<Rightarrow> string \<Rightarrow> process \<Rightarrow> pc \<Rightarrow> fs \<Rightarrow> pc \<times> fs" where
  "step may_open path P AtExists fs = (if \<not> exists fs path then AtOpen else Finished, fs)"
| "step may_open path P AtOpen fs =
     (case open_w may_open P path fs of
        Inl e \<Rightarrow> (Raised e, fs)
      | Inr fs1 \<Rightarrow> (AtClose, fs1))"
| "step may_open path P AtClose fs = (AtChmod, fs)"
| "step may_open path P AtChmod fs =
     (case chmod P path 511 fs of
        Inl e \<Rightarrow> (Raised e, fs)
      | Inr fs1 \<Rightarrow> (Finished, fs1))"
| "step may_open path P Finished fs = (Finished, fs)"
| "step may_open path P (Raised e) fs = (Raised e, fs)"

text \<open>
  A schedule says which process takes the next step: \<open>True\<close> for the first process,
  \<open>False\<close> for the second.
\<close>

fun run ::
  "(process \<Rightarrow> file_entry \<Rightarrow> bool) \<Rightarrow> string \<Rightarrow> process \<Rightarrow> process \<Rightarrow> bool list
     \<Rightarrow> pc \<times> pc \<times> fs \<Rightarrow> pc \<times> pc \<times> fs" where
  "run may_open path A B [] c = c"
| "run may_open path A B (first # sched) (a, b, fs) =
     (if first then
        (case step may_open path A a fs of (a', fs') \<Rightarrow> run may_open path A B sched (a', b, fs'))
      else
        (case step may_open path B b fs of (b', fs') \<Rightarrow> run may_open path A B sched (a, b', fs')))"

fun ended :: "pc \<Rightarrow> bool" where
  "ended Finished = True"
| "ended (Raised e) = True"
| "ended _ = False"

text \<open>The file exists and user, group and others may all read and write it.\<close>

definition world_writable :: "fs \<Rightarrow> string \<Rightarrow> bool" where
  "world_writable fs path = (case fs path of None \<Rightarrow> False | Some f \<Rightarrow> mode f AND 438 = 438)"

text \<open>
  The invariant of the race: while the file is missing no process is past \<open>open\<close>;
  once it exists it has mode \<open>0o777\<close>, or its owner still has the \<open>chmod\<close> ahead.
\<close>

fun pending :: "pc \<Rightarrow> bool" where
  "pending AtClose = True"
| "pending AtChmod = True"
| "pending _ = False"

fun early :: "pc \<Rightarrow> bool" where
  "early AtExists = True"
| "early AtOpen = True"
| "early _ = False"

definition race_inv :: "string \<Rightarrow> process \<Rightarrow> process \<Rightarrow> pc \<times> pc \<times> fs \<Rightarrow> bool" where
  "race_inv path A B c =
     (case c of (a, b, fs) \<Rightarrow>
        (case fs path of
           None \<Rightarrow> early a \<and> early b
         | Some f \<Rightarrow>
             mode f = 511 \<or> (uid A = owner f \<and> pending a) \<or> (uid B = owner f \<and> pending b)))"

fun remaining :: "pc \<Rightarrow> nat" where
  "remaining AtExists = 4"
| "remaining AtOpen = 3"
| "remaining AtClose = 2"
| "remaining AtChmod = 1"
| "remaining _ = 0"

text \<open>
  Two users with the usual mask \<open>0o022\<close>, and the check of the permission bits of the
  owner (\<open>0o600 = 384\<close>) or of the others (\<open>0o006\<close>) as \<open>may_open\<close>.
\<close>

definition alice :: process where
  "alice = \<lparr>uid = 1000, umask = 18\<rparr>"

definition bob :: process where
  "bob = \<lparr>uid = 1001, umask = 18\<rparr>"

definition mode_bits_allow :: "process \<Rightarrow> file_entry \<Rightarrow> bool" where
  "mode_bits_allow P f =
     (uid P = 0 \<or> (if uid P = owner f then mode f AND 384 = 384 else mode f AND 6 = 6))"

section \<open>The guarded region of \<open>main\<close> in \<open>asm/__main__.py\<close>\<close>

text \<open>
  \<^verbatim>\<open>
      with asm.lock:
          try:
              result = main_functions[args.action]()
              if result is False:
                  return 1
              if isinstance(result, str):
                  printer(result)
              return 0
          except AsmException as e:
              exc_type = e.__class__.__name__
              printer('{}: {}'.format(exc_type, str(e)))
              return get_error_code(e.__class__)
  \<close>
  An execution is described by the events it produces in order and by how it leaves
  \<open>main\<close>. The parts that are not in this file are parameters: \<open>enter\<close> is the
  outcome of entering the lock's context (\<open>None\<close> when the lock has been acquired,
  \<open>Some e\<close> when the acquisition raises \<open>e\<close>), \<open>main_functions act\<close> is the
  outcome of running the command function of an action, and \<open>printer s\<close> tells whether
  printing raises. An \<open>AsmException\<close> carries the name of its class and its message.
\<close>

datatype 'x exn = AsmException string string | OtherException 'x

datatype action = Install | Remove | List | Update | Default | Search | Info

datatype result = ResFalse | ResStr string | ResOther

datatype event = Acquire | Release | Invoke action | Print string

datatype 'x exit = Return nat | Raise "'x exn"

definition get_error_code :: "string \<Rightarrow> nat" where
  "get_error_code error_cls_name = 1 + (sum_list (map of_char error_cls_name) mod 255)"

text \<open>The body of the \<open>try\<close> statement: the events, and the exception or the return code.\<close>

definition try_body ::
  "(action \<Rightarrow> 'x exn + result) \<Rightarrow> (string \<Rightarrow> 'x exn option) \<Rightarrow> action
     \<Rightarrow> event list \<times> ('x exn + nat)" where
  "try_body main_functions printer act =
     (case main_functions act of
        Inl e \<Rightarrow> ([Invoke act], Inl e)
      | Inr ResFalse \<Rightarrow> ([Invoke act], Inr 1)
      | Inr (ResStr s) \<Rightarrow>
          (case printer s of
             Some e \<Rightarrow> ([Invoke act, Print s], Inl e)
           | None \<Rightarrow> ([Invoke act, Print s], Inr 0))
      | Inr ResOther \<Rightarrow> ([Invoke act], Inr 0))"

text \<open>The \<open>except AsmException\<close> clause; any other exception passes through.\<close>

definition try_except ::
  "(string \<Rightarrow> 'x exn option) \<Rightarrow> event list \<times> ('x exn + nat) \<Rightarrow> event list \<times> 'x exit" where
  "try_except printer body =
     (case body of
        (tr, Inr code) \<Rightarrow> (tr, Return code)
      | (tr, Inl (AsmException exc_type msg)) \<Rightarrow>
          (case printer (exc_type @ '': '' @ msg) of
             Some e \<Rightarrow> (tr @ [Print (exc_type @ '': '' @ msg)], Raise e)
           | None \<Rightarrow> (tr @ [Print (exc_type @ '': '' @ msg)], Return (get_error_code exc_type)))
      | (tr, Inl (OtherException x)) \<Rightarrow> (tr, Raise (OtherException x)))"

text \<open>
  The \<open>with\<close> statement: when entering raises, the body does not run and there is
  nothing to release; otherwise the lock is released when the body is left, by
  \<open>return\<close> or by an exception, which goes on to the caller.
\<close>

definition with_lock :: "'x exn option \<Rightarrow> event list \<times> 'x exit \<Rightarrow> event list \<times> 'x exit" where
  "with_lock enter body =
     (case enter of
        Some e \<Rightarrow> ([], Raise e)
      | None \<Rightarrow> (case body of (tr, ex) \<Rightarrow> (Acquire # tr @ [Release], ex)))"

definition main ::
  "'x exn option \<Rightarrow> (action \<Rightarrow> 'x exn + result) \<Rightarrow> (string \<Rightarrow> 'x exn option) \<Rightarrow> action
     \<Rightarrow> event list \<times> 'x exit" where
  "main enter main_functions printer act =
     with_lock enter (try_except printer (try_body main_functions printer act))"

fun is_print :: "event \<Rightarrow> bool" where
  "is_print (Print s) = True"
| "is_print _ = False"

text \<open>Commands that all fail with a \<open>SkillNotFound\<close>, and a printer that never raises.\<close>

definition not_found :: "action \<Rightarrow> string exn + result" where
  "not_found act = Inl (AsmException ''SkillNotFound'' ''weather'')"

definition quiet :: "string \<Rightarrow> string exn option" where
  "quiet s = None"

section \<open>Properties of the TTL cache\<close>

subsection \<open>One read access\<close>

lemma entry_store_same: "entry (store key ent inst h) inst key = Some ent"
  by (simp add: entry_def store_def Let_def split: option.splits)

lemma try_cached_entry:
  "try_cached p now inst h =
     (case entry h inst (name p) of
        None \<Rightarrow> Inl (if cache h inst = None then AttributeError else KeyError)
      | Some (val, last_update) \<Rightarrow>
          if ttl p > 0 \<and> now - last_update > ttl p then Inl AttributeError else Inr val)"
  by (simp add: try_cached_def entry_def split: option.splits)

lemma get_miss:
  "try_cached p now inst h = Inl err \<Longrightarrow>
   get p now inst (h, n) =
     (case fget p inst h of
        (Inl e, h1) \<Rightarrow> (Inl e, h1, Suc n)
      | (Inr val, h1) \<Rightarrow> (Inr val, store (name p) (val, now) inst h1, Suc n))"
  by (simp add: get_def)

lemma get_hit: "try_cached p now inst h = Inr v \<Longrightarrow> get p now inst (h, n) = (Inr v, h, n)"
  by (simp add: get_def)

lemma try_cached_live:
  "entry h inst (name p) = Some (v, t0) \<Longrightarrow> \<not> (ttl p > 0 \<and> now - t0 > ttl p) \<Longrightarrow>
   try_cached p now inst h = Inr v"
  by (simp add: try_cached_entry)

lemma try_cached_absent:
  "entry h inst (name p) = None \<Longrightarrow> \<exists>err. try_cached p now inst h = Inl err"
  by (simp add: try_cached_entry)

lemma try_cached_expired:
  "entry h inst (name p) = Some (v, t0) \<Longrightarrow> ttl p > 0 \<Longrightarrow> now - t0 > ttl p \<Longrightarrow>
   try_cached p now inst h = Inl AttributeError"
  by (simp add: try_cached_entry)

lemma try_cached_still_miss:
  "try_cached p now inst h = Inl err \<Longrightarrow> entry h1 inst (name p) = entry h inst (name p) \<Longrightarrow>
   now \<le> now' \<Longrightarrow> \<exists>err'. try_cached p now' inst h1 = Inl err'"
  by (auto simp: try_cached_entry split: option.splits if_splits)

text \<open>A miss invokes the computation once and hands its outcome to the caller.\<close>

lemma get_miss_outcome:
  assumes "try_cached p now inst h = Inl err"
  shows "fst (get p now inst (h, n)) = fst (fget p inst h) \<and>
         snd (snd (get p now inst (h, n))) = Suc n"
proof -
  obtain r h1 where f: "fget p inst h = (r, h1)" by (cases "fget p inst h")
  show ?thesis by (cases r) (simp_all add: get_miss [OF assms] f)
qed

text \<open>The only exceptions a read raises are those of the wrapped computation.\<close>

lemma get_raises_only_from_fget:
  "get p now inst (h, n) = (Inl e, h', n') \<Longrightarrow> fget p inst h = (Inl e, h') \<and> n' = Suc n"
  by (auto simp: get_def split: sum.splits prod.splits)

subsection \<open>Sequences of read accesses\<close>

lemma reads_hits:
  "entry h inst (name p) = Some (v, t0) \<Longrightarrow> \<forall>t \<in> set ts. \<not> (ttl p > 0 \<and> t - t0 > ttl p) \<Longrightarrow>
   reads p ts inst (h, n) = (replicate (length ts) (Inr v), h, n)"
  by (induction ts) (simp_all add: get_hit try_cached_live)

lemma reads_first_miss:
  assumes "try_cached p t inst h = Inl err" and "fget p inst h = (Inr v, h1)"
    and "\<forall>t' \<in> set ts. \<not> (ttl p > 0 \<and> t' - t > ttl p)"
  shows "reads p (t # ts) inst (h, n) =
           (replicate (Suc (length ts)) (Inr v), store (name p) (v, t) inst h1, Suc n)"
  using assms reads_hits [of "store (name p) (v, t) inst h1" inst p v t ts "Suc n"]
  by (simp add: get_miss entry_store_same)

subsection \<open>A time-to-live that is not positive\<close>

lemma try_cached_nonpositive:
  "ttl p \<le> 0 \<Longrightarrow> try_cached p now inst h = try_cached (p\<lparr>ttl := 0\<rparr>) now inst h"
  by (auto simp: try_cached_def split: option.splits)

lemma get_nonpositive: "ttl p \<le> 0 \<Longrightarrow> get p now inst s = get (p\<lparr>ttl := 0\<rparr>) now inst s"
  by (simp add: get_def try_cached_nonpositive [of p] split: prod.split sum.split)

lemma reads_nonpositive: "ttl p \<le> 0 \<Longrightarrow> reads p ts inst s = reads (p\<lparr>ttl := 0\<rparr>) ts inst s"
  by (induction ts arbitrary: s) (simp_all add: get_nonpositive [of p])

subsection \<open>Manual invalidation\<close>

lemma invalidate_entry:
  "invalidate key inst h = Inr h' \<Longrightarrow> entry h' inst key = None"
  by (auto simp: invalidate_def entry_def split: option.splits)

subsection \<open>Several instances\<close>

lemma per_instance_fresh: "cache h = (\<lambda>_. None) \<Longrightarrow> per_instance h"
  by (simp add: per_instance_def)

lemma per_instance_store: "per_instance h \<Longrightarrow> per_instance (store key ent inst h)"
  unfolding per_instance_def store_def Let_def
  by (cases "cache h inst") (auto simp: less_Suc_eq split: if_splits)

lemma per_instance_computed:
  "leaves_caches f \<Longrightarrow> per_instance h \<Longrightarrow> per_instance (snd (f inst h))"
  unfolding per_instance_def leaves_caches_def
  by (metis less_le_trans)

lemma per_instance_invalidate:
  "per_instance h \<Longrightarrow> invalidate key inst h = Inr h' \<Longrightarrow> per_instance h'"
  by (auto simp: per_instance_def invalidate_def split: option.splits)

lemma entry_store_other:
  "per_instance h \<Longrightarrow> inst \<noteq> other \<Longrightarrow> entry (store key ent inst h) other k = entry h other k"
  unfolding per_instance_def store_def entry_def Let_def
  by (cases "cache h inst"; cases "cache h other") auto

lemma entry_computed:
  "leaves_caches f \<Longrightarrow> entry (snd (f inst h)) other k = entry h other k"
  by (simp add: leaves_caches_def entry_def split: option.split)

lemma get_cases:
  "fst (snd (get p now inst (h, n))) = h \<or>
   fst (snd (get p now inst (h, n))) = snd (fget p inst h) \<or>
   (\<exists>v. fst (snd (get p now inst (h, n))) = store (name p) (v, now) inst (snd (fget p inst h)))"
  by (auto simp: get_def split: sum.splits prod.splits)

lemma per_instance_get:
  assumes "leaves_caches (fget p)" and "per_instance h"
  shows "per_instance (fst (snd (get p now inst (h, n))))"
  using get_cases [of p now inst h n] assms
  by (auto simp: per_instance_computed per_instance_store)

lemma entry_get_other:
  assumes "leaves_caches (fget p)" and "per_instance h" and "inst \<noteq> other"
  shows "entry (fst (snd (get p now inst (h, n)))) other k = entry h other k"
  using get_cases [of p now inst h n] assms
  by (auto simp: per_instance_computed entry_store_other entry_computed)

text \<open>Every history of well-behaved accesses keeps the cache dicts per instance.\<close>

lemma per_instance_history:
  "\<forall>a \<in> set as. tame a \<Longrightarrow> per_instance (fst s) \<Longrightarrow> per_instance (fst (history as s))"
proof (induction as arbitrary: s)
  case Nil
  then show ?case by simp
next
  case (Cons a as)
  show ?case
  proof (cases a)
    case (Read p now inst)
    obtain h n where s: "s = (h, n)" by (cases s)
    have "per_instance (fst (snd (get p now inst s)))"
      using Cons.prems Read s by (simp add: per_instance_get)
    then show ?thesis using Cons Read by simp
  next
    case (Delete key inst)
    show ?thesis
    proof (cases "invalidate key inst (fst s)")
      case (Inl e)
      then show ?thesis using Cons Delete by simp
    next
      case (Inr h')
      then have "per_instance h'" using Cons.prems per_instance_invalidate by blast
      then show ?thesis using Cons Delete Inr by simp
    qed
  qed
qed

lemma leaves_caches_counter: "leaves_caches counter_fget"
  by (simp add: leaves_caches_def counter_fget_def)

subsection \<open>The claims about the TTL cache\<close>

text \<open>
  C1, as amended. Let \<open>ttl > 0\<close>. If a read access at time \<open>t1\<close> finds no live entry
  (none at all, or an expired one), so that it runs the wrapped computation, which
  returns \<open>v\<close>, and a second read access follows less than \<open>ttl\<close> seconds later with
  no invalidation in between, then the computation is invoked exactly once over the two
  reads and both return \<open>v\<close>. The premise on the first read is needed: the time-to-live
  runs from the last computation, not from the last read.
\<close>

theorem two_reads_within_ttl:
  assumes "ttl p > 0" and "try_cached p t1 inst h = Inl err" and "fget p inst h = (Inr v, h1)"
    and "t2 - t1 < ttl p"
  shows "reads p [t1, t2] inst (h, n) =
           ([Inr v, Inr v], store (name p) (v, t1) inst h1, Suc n)"
  using reads_first_miss [of p t1 inst h err v h1 "[t2]" n] assms by simp

theorem two_reads_within_ttl_witness:
  "ttl (counter_prop 1) > 0 \<and>
   try_cached (counter_prop 1) 0 0 fresh_heap = Inl AttributeError \<and>
   (1 / 2 - 0 :: real) < ttl (counter_prop 1) \<and>
   fst (reads (counter_prop 1) [0, 1 / 2] 0 (fresh_heap, 0)) = [Inr 0, Inr 0] \<and>
   snd (snd (reads (counter_prop 1) [0, 1 / 2] 0 (fresh_heap, 0))) = 1"
proof -
  have m: "try_cached (counter_prop 1) 0 0 fresh_heap = Inl AttributeError"
    by (simp add: try_cached_def fresh_heap_def)
  have f: "fget (counter_prop 1) 0 fresh_heap = (Inr 0, fresh_heap\<lparr>world := 1\<rparr>)"
    by (simp add: counter_prop_def counter_fget_def fresh_heap_def)
  have t: "ttl (counter_prop 1) > 0" "(1 / 2 - 0 :: real) < ttl (counter_prop 1)"
    by (simp_all add: counter_prop_def)
  show ?thesis
    using two_reads_within_ttl [OF t(1) m f t(2), of 0] m t by simp
qed

text \<open>
  C1 as stated fails when the first of the two reads is itself served from the cache.
  In the scenario of the specification (\<open>ttl = 1\<close>, a computation that counts, a first
  read at time \<open>0\<close>) the reads at \<open>0.5\<close> and \<open>1.2\<close> are \<open>0.7\<close> seconds apart with
  no invalidation between them; the one at \<open>0.5\<close> returns the cached \<open>0\<close>, the one at
  \<open>1.2\<close> finds the entry of time \<open>0\<close> expired and returns the recomputed \<open>1\<close>.
\<close>

theorem two_reads_apart_less_than_ttl_counterexample:
  "ttl (counter_prop 1) > 0 \<and>
   (6 / 5 - 1 / 2 :: real) < ttl (counter_prop 1) \<and>
   fst (reads (counter_prop 1) [1 / 2, 6 / 5] 0 (snd (get (counter_prop 1) 0 0 (fresh_heap, 0)))) =
     [Inr 0, Inr 1]"
  by (simp add: get_def try_cached_def store_def counter_prop_def counter_fget_def
        fresh_heap_def)

text \<open>
  C2. Let \<open>ttl > 0\<close> and let the entry of the property be \<open>(v0, t0)\<close>. A read access at
  a time \<open>now\<close> with \<open>now - t0 > ttl\<close> is a miss: it invokes the wrapped computation once
  more and hands its outcome to the caller, and when the computation returns \<open>v\<close> the
  entry becomes \<open>(v, now)\<close>, whether or not \<open>v\<close> differs from \<open>v0\<close>.
\<close>

theorem expired_read_recomputes:
  assumes "ttl p > 0" and "entry h inst (name p) = Some (v0, t0)" and "now - t0 > ttl p"
  shows "fst (get p now inst (h, n)) = fst (fget p inst h) \<and>
         snd (snd (get p now inst (h, n))) = Suc n \<and>
         (\<forall>v. fst (fget p inst h) = Inr v \<longrightarrow>
            entry (fst (snd (get p now inst (h, n)))) inst (name p) = Some (v, now))"
proof -
  have miss: "try_cached p now inst h = Inl AttributeError"
    using assms by (simp add: try_cached_expired)
  obtain r h1 where f: "fget p inst h = (r, h1)" by (cases "fget p inst h")
  show ?thesis
    by (cases r) (simp_all add: get_miss [OF miss] f entry_store_same)
qed

theorem expired_read_recomputes_witness:
  "ttl (counter_prop 1) > 0 \<and>
   entry (cached_heap 7 0 7) 0 (name (counter_prop 1)) = Some (7, 0) \<and>
   (3 / 2 - 0 :: real) > ttl (counter_prop 1) \<and>
   fst (get (counter_prop 1) (3 / 2) 0 (cached_heap 7 0 7, 4)) = Inr 7 \<and>
   snd (snd (get (counter_prop 1) (3 / 2) 0 (cached_heap 7 0 7, 4))) = 5 \<and>
   entry (fst (snd (get (counter_prop 1) (3 / 2) 0 (cached_heap 7 0 7, 4)))) 0 ''randint'' =
     Some (7, 3 / 2)"
  using expired_read_recomputes [of "counter_prop 1" "cached_heap 7 0 7" 0 7 0 "3 / 2" 4]
  by (simp add: counter_prop_def counter_fget_def cached_heap_def entry_def)

text \<open>
  C3. Let \<open>ttl = 0\<close>. In every sequence of read accesses on an instance that has no
  entry for the property yet, whatever the clock values, the wrapped computation is
  invoked exactly once, on the first access, and every access returns the value \<open>v\<close>
  that it returned.
\<close>

theorem ttl_zero_never_expires:
  assumes "ttl p = 0" and "entry h inst (name p) = None" and "fget p inst h = (Inr v, h1)"
  shows "reads p (t # ts) inst (h, n) =
           (replicate (Suc (length ts)) (Inr v), store (name p) (v, t) inst h1, Suc n)"
proof -
  obtain err where "try_cached p t inst h = Inl err"
    using try_cached_absent [OF assms(2)] by blast
  then show ?thesis
    using assms reads_first_miss [of p t inst h err v h1 ts n] by simp
qed

theorem ttl_zero_never_expires_witness:
  "ttl (counter_prop 0) = 0 \<and>
   entry fresh_heap 0 (name (counter_prop 0)) = None \<and>
   fst (reads (counter_prop 0) [0, 1000000, 5] 0 (fresh_heap, 0)) = [Inr 0, Inr 0, Inr 0] \<and>
   snd (snd (reads (counter_prop 0) [0, 1000000, 5] 0 (fresh_heap, 0))) = 1"
  using ttl_zero_never_expires
    [of "counter_prop 0" fresh_heap 0 0 "fresh_heap\<lparr>world := 1\<rparr>" 0 "[1000000, 5]" 0]
  by (simp add: counter_prop_def counter_fget_def fresh_heap_def entry_def)

text \<open>
  C4. If a read access runs the wrapped computation (on a first access or after expiry)
  and the computation raises \<open>e\<close>, then the read raises the same \<open>e\<close> and the heap is
  the one the computation left: the cache writes no entry. The failure is not cached
  either: unless the computation itself changed the entry, the next read, at any later
  clock value, runs the computation again.
\<close>

theorem failed_computation_not_cached:
  assumes "try_cached p now inst h = Inl err" and "fget p inst h = (Inl e, h1)"
  shows "get p now inst (h, n) = (Inl e, h1, Suc n) \<and>
         (entry h1 inst (name p) = entry h inst (name p) \<longrightarrow> now \<le> now' \<longrightarrow>
            fst (get p now' inst (h1, Suc n)) = fst (fget p inst h1) \<and>
            snd (snd (get p now' inst (h1, Suc n))) = Suc (Suc n))"
proof (rule conjI)
  show "get p now inst (h, n) = (Inl e, h1, Suc n)"
    using assms by (simp add: get_miss)
next
  show "entry h1 inst (name p) = entry h inst (name p) \<longrightarrow> now \<le> now' \<longrightarrow>
          fst (get p now' inst (h1, Suc n)) = fst (fget p inst h1) \<and>
          snd (snd (get p now' inst (h1, Suc n))) = Suc (Suc n)"
  proof (intro impI)
    assume "entry h1 inst (name p) = entry h inst (name p)" and "now \<le> now'"
    then obtain err' where "try_cached p now' inst h1 = Inl err'"
      using try_cached_still_miss [OF assms(1)] by blast
    then show "fst (get p now' inst (h1, Suc n)) = fst (fget p inst h1) \<and>
               snd (snd (get p now' inst (h1, Suc n))) = Suc (Suc n)"
      by (rule get_miss_outcome)
  qed
qed

theorem failed_computation_not_cached_witness:
  "try_cached (failing_prop 1) 2 0 (cached_heap 7 0 3) = Inl AttributeError \<and>
   fget (failing_prop 1) 0 (cached_heap 7 0 3) = (Inl ''RuntimeError'', cached_heap 7 0 4) \<and>
   get (failing_prop 1) 2 0 (cached_heap 7 0 3, 0) = (Inl ''RuntimeError'', cached_heap 7 0 4, 1) \<and>
   entry (cached_heap 7 0 4) 0 ''randint'' = entry (cached_heap 7 0 3) 0 ''randint'' \<and>
   fst (get (failing_prop 1) 3 0 (cached_heap 7 0 4, 1)) = Inl ''RuntimeError'' \<and>
   snd (snd (get (failing_prop 1) 3 0 (cached_heap 7 0 4, 1))) = 2"
proof -
  have m: "try_cached (failing_prop 1) 2 0 (cached_heap 7 0 3) = Inl AttributeError"
    by (simp add: try_cached_def failing_prop_def cached_heap_def)
  have f: "fget (failing_prop 1) 0 (cached_heap 7 0 3) = (Inl ''RuntimeError'', cached_heap 7 0 4)"
    by (simp add: failing_prop_def failing_fget_def cached_heap_def)
  have e: "entry (cached_heap 7 0 4) 0 ''randint'' = entry (cached_heap 7 0 3) 0 ''randint''"
    by (simp add: entry_def cached_heap_def)
  have g: "fst (fget (failing_prop 1) 0 (cached_heap 7 0 4)) = Inl ''RuntimeError''"
    by (simp add: failing_prop_def failing_fget_def)
  show ?thesis
    using failed_computation_not_cached [OF m f, of 0 3] m f e g
    by (simp add: failing_prop_def)
qed

text \<open>
  C8. After the entry of the property has been deleted from the instance's cache dict,
  and nothing else has been done, the next read access runs the wrapped computation
  again and hands on its outcome, for every time-to-live and at every clock value, so
  also while the deleted entry was still live.
\<close>

theorem invalidate_forces_recompute:
  assumes "invalidate (name p) inst h = Inr h'"
  shows "entry h' inst (name p) = None \<and>
         fst (get p now inst (h', n)) = fst (fget p inst h') \<and>
         snd (snd (get p now inst (h', n))) = Suc n"
proof -
  have e: "entry h' inst (name p) = None" using assms by (rule invalidate_entry)
  then obtain err where "try_cached p now inst h' = Inl err"
    using try_cached_absent by blast
  then show ?thesis using e get_miss_outcome by blast
qed

theorem invalidate_forces_recompute_witness:
  "try_cached (counter_prop 300) 1 0 (cached_heap 7 0 8) = Inr 7 \<and>
   (\<exists>h'. invalidate (name (counter_prop 300)) 0 (cached_heap 7 0 8) = Inr h' \<and>
      fst (get (counter_prop 300) 1 0 (h', 0)) = Inr 8 \<and>
      snd (snd (get (counter_prop 300) 1 0 (h', 0))) = 1)"
proof -
  have live: "try_cached (counter_prop 300) 1 0 (cached_heap 7 0 8) = Inr 7"
    by (simp add: try_cached_def counter_prop_def cached_heap_def)
  obtain h' where i: "invalidate (name (counter_prop 300)) 0 (cached_heap 7 0 8) = Inr h'"
    and w: "world h' = 8"
    by (simp add: invalidate_def counter_prop_def cached_heap_def)
  have "fst (fget (counter_prop 300) 0 h') = Inr 8"
    using w by (simp add: counter_prop_def counter_fget_def)
  then show ?thesis
    using invalidate_forces_recompute [OF i, of 1 0] live i by auto
qed

text \<open>
  C9. Let every cache dict belong to one instance only, as is the case when the
  instances have no \<open>_cache\<close> attribute yet, and let the wrapped computations leave
  the cache data alone. Then, after any history of read accesses and invalidations, a
  read access on one instance, recomputing or not, leaves every entry (value and
  timestamp) of every other instance as it was, and every cache dict still belongs to
  one instance only.
\<close>

theorem instances_independent:
  assumes "per_instance h0" and "\<forall>a \<in> set as. tame a" and "leaves_caches (fget p)"
    and "inst \<noteq> other"
  shows "entry (fst (snd (get p now inst (history as (h0, n0))))) other key =
           entry (fst (history as (h0, n0))) other key \<and>
         per_instance (fst (snd (get p now inst (history as (h0, n0)))))"
proof -
  obtain h n where s: "history as (h0, n0) = (h, n)" by (cases "history as (h0, n0)")
  have "per_instance (fst (history as (h0, n0)))"
    using assms(1,2) by (intro per_instance_history) simp_all
  then have h: "per_instance h" using s by simp
  have "entry (fst (snd (get p now inst (h, n)))) other key = entry h other key"
    using h assms(3,4) by (simp add: entry_get_other)
  moreover have "per_instance (fst (snd (get p now inst (h, n))))"
    using h assms(3) by (simp add: per_instance_get)
  ultimately show ?thesis using s by simp
qed

theorem instances_independent_witness:
  "per_instance fresh_heap \<and> leaves_caches (fget (counter_prop 1)) \<and> (0 :: nat) \<noteq> 1 \<and>
   entry (fst (history [Read (counter_prop 1) 0 1] (fresh_heap, 0))) 1 ''randint'' = Some (0, 0) \<and>
   fst (get (counter_prop 1) 5 0 (history [Read (counter_prop 1) 0 1] (fresh_heap, 0))) = Inr 1 \<and>
   entry (fst (snd (get (counter_prop 1) 5 0 (history [Read (counter_prop 1) 0 1] (fresh_heap, 0)))))
     1 ''randint'' = Some (0, 0)"
proof -
  have l: "leaves_caches (fget (counter_prop 1))"
    by (simp add: counter_prop_def leaves_caches_counter)
  have c: "per_instance fresh_heap" by (simp add: per_instance_fresh fresh_heap_def)
  have t: "\<forall>a \<in> set [Read (counter_prop 1) 0 1]. tame a" using l by simp
  have d: "(0 :: nat) \<noteq> 1" by simp
  have before: "entry (fst (history [Read (counter_prop 1) 0 1] (fresh_heap, 0))) 1 ''randint'' =
      Some (0, 0)"
    by (simp add: get_def try_cached_def store_def entry_def counter_prop_def
          counter_fget_def fresh_heap_def)
  have val: "fst (get (counter_prop 1) 5 0 (history [Read (counter_prop 1) 0 1] (fresh_heap, 0))) =
      Inr 1"
    by (simp add: get_def try_cached_def store_def counter_prop_def counter_fget_def
          fresh_heap_def)
  show ?thesis
    using instances_independent [OF c t l d, of 5 0 "''randint''"] l c before val by simp
qed

text \<open>
  C10. A negative \<open>ttl\<close> behaves as \<open>ttl = 0\<close>: every read access and every sequence of
  read accesses has the same outcome and leaves the same state as under \<open>ttl = 0\<close>. So
  the entry never expires: from an instance without an entry, the wrapped computation
  is invoked exactly once, on the first access, and every access returns its value.
\<close>

theorem negative_ttl_as_zero:
  assumes "ttl p < 0"
  shows "get p now inst s = get (p\<lparr>ttl := 0\<rparr>) now inst s \<and>
         reads p ts inst s = reads (p\<lparr>ttl := 0\<rparr>) ts inst s \<and>
         (entry h inst (name p) = None \<longrightarrow> fget p inst h = (Inr v, h1) \<longrightarrow>
            reads p (t # ts) inst (h, n) =
              (replicate (Suc (length ts)) (Inr v), store (name p) (v, t) inst h1, Suc n))"
proof -
  have le: "ttl p \<le> 0" using assms by simp
  have g: "get p now inst s = get (p\<lparr>ttl := 0\<rparr>) now inst s"
    using le by (rule get_nonpositive)
  have r: "reads p ts inst s = reads (p\<lparr>ttl := 0\<rparr>) ts inst s"
    using le by (rule reads_nonpositive)
  have once: "reads p (t # ts) inst (h, n) =
      (replicate (Suc (length ts)) (Inr v), store (name p) (v, t) inst h1, Suc n)"
    if a: "entry h inst (name p) = None" and f: "fget p inst h = (Inr v, h1)"
  proof -
    obtain err where "try_cached p t inst h = Inl err"
      using try_cached_absent [OF a] by blast
    then show ?thesis
      using assms f reads_first_miss [of p t inst h err v h1 ts n] by simp
  qed
  show ?thesis using g r once by blast
qed

theorem negative_ttl_as_zero_witness:
  "ttl (counter_prop (- 1)) < 0 \<and>
   get (counter_prop (- 1)) 1000 0 (cached_heap 7 0 8, 0) =
     get ((counter_prop (- 1))\<lparr>ttl := 0\<rparr>) 1000 0 (cached_heap 7 0 8, 0) \<and>
   fst (get (counter_prop (- 1)) 1000 0 (cached_heap 7 0 8, 0)) = Inr 7 \<and>
   entry fresh_heap 0 (name (counter_prop (- 1))) = None \<and>
   fst (reads (counter_prop (- 1)) [0, 1000, 5] 0 (fresh_heap, 0)) = [Inr 0, Inr 0, Inr 0] \<and>
   snd (snd (reads (counter_prop (- 1)) [0, 1000, 5] 0 (fresh_heap, 0))) = 1"
proof -
  have neg: "ttl (counter_prop (- 1)) < 0" by (simp add: counter_prop_def)
  have a: "entry fresh_heap 0 (name (counter_prop (- 1))) = None"
    by (simp add: entry_def fresh_heap_def)
  have f: "fget (counter_prop (- 1)) 0 fresh_heap = (Inr 0, fresh_heap\<lparr>world := 1\<rparr>)"
    by (simp add: counter_prop_def counter_fget_def fresh_heap_def)
  have hit: "fst (get (counter_prop (- 1)) 1000 0 (cached_heap 7 0 8, 0)) = Inr 7"
    by (simp add: get_def try_cached_def counter_prop_def cached_heap_def)
  show ?thesis
    using negative_ttl_as_zero
      [OF neg, of 1000 0 "(cached_heap 7 0 8, 0)" "[1000, 5]" fresh_heap 0
        "fresh_heap\<lparr>world := 1\<rparr>" 0 0]
      neg a f hit
    by simp
qed

section \<open>Properties of the lock file's initialisation\<close>

lemma init_creates:
  assumes "\<not> exists fs path"
  shows "\<exists>fs1. init may_open path P fs = (None, fs1) \<and>
           fs1 path = Some \<lparr>owner = uid P, mode = 511, data = []\<rparr>"
  using assms by (simp add: init_def exists_def open_w_def chmod_def)

lemma init_existing: "exists fs path \<Longrightarrow> init may_open path Q fs = (None, fs)"
  by (simp add: init_def)

text \<open>A process that runs alone goes through the statements of the constructor.\<close>

lemma run_alone:
  "run may_open path A B [True, True, True, True] (AtExists, b, fs) =
     (case init may_open path A fs of
        (None, fs1) \<Rightarrow> (Finished, b, fs1)
      | (Some e, fs1) \<Rightarrow> (Raised e, b, fs1))"
  by (auto simp: init_def exists_def open_w_def chmod_def split: option.splits)

lemma step_inv_first:
  "race_inv path A B (a, b, fs) \<Longrightarrow> step may_open path A a fs = (a', fs') \<Longrightarrow>
   race_inv path A B (a', b, fs')"
  by (cases a)
     (auto simp: race_inv_def exists_def open_w_def chmod_def
           split: option.splits if_splits)

lemma step_inv_second:
  "race_inv path A B (a, b, fs) \<Longrightarrow> step may_open path B b fs = (b', fs') \<Longrightarrow>
   race_inv path A B (a, b', fs')"
  by (cases b)
     (auto simp: race_inv_def exists_def open_w_def chmod_def
           split: option.splits if_splits)

lemma run_inv:
  "race_inv path A B c \<Longrightarrow> race_inv path A B (run may_open path A B sched c)"
proof (induction sched arbitrary: c)
  case Nil
  then show ?case by simp
next
  case (Cons first sched)
  obtain a b fs where c: "c = (a, b, fs)" by (cases c)
  show ?case
  proof (cases first)
    case True
    obtain a' fs' where s: "step may_open path A a fs = (a', fs')"
      by (cases "step may_open path A a fs")
    then have "race_inv path A B (a', b, fs')"
      using Cons.prems c step_inv_first by blast
    then show ?thesis using Cons.IH c s True by simp
  next
    case False
    obtain b' fs' where s: "step may_open path B b fs = (b', fs')"
      by (cases "step may_open path B b fs")
    then have "race_inv path A B (a, b', fs')"
      using Cons.prems c step_inv_second by blast
    then show ?thesis using Cons.IH c s False by simp
  qed
qed

lemma inv_ended:
  "race_inv path A B (a, b, fs) \<Longrightarrow> ended a \<Longrightarrow> ended b \<Longrightarrow> world_writable fs path"
  by (cases a; cases b) (auto simp: race_inv_def world_writable_def split: option.splits)

lemma step_remaining:
  "step may_open path P a fs = (a', fs') \<Longrightarrow> remaining a' \<le> remaining a - 1"
  by (cases a) (auto split: sum.splits if_splits)

lemma run_remaining:
  "run may_open path A B sched (a, b, fs) = (a', b', fs') \<Longrightarrow>
   remaining a' \<le> remaining a - count_list sched True \<and>
   remaining b' \<le> remaining b - count_list sched False"
proof (induction sched arbitrary: a b fs)
  case Nil
  then show ?case by simp
next
  case (Cons first sched)
  show ?case
  proof (cases first)
    case True
    obtain a1 fs1 where s: "step may_open path A a fs = (a1, fs1)"
      by (cases "step may_open path A a fs")
    have "remaining a1 \<le> remaining a - 1" using s by (rule step_remaining)
    moreover have "remaining a' \<le> remaining a1 - count_list sched True \<and>
                   remaining b' \<le> remaining b - count_list sched False"
      using Cons.prems True s by (intro Cons.IH [of a1 b fs1]) simp
    ultimately show ?thesis using True by (simp; arith)
  next
    case False
    obtain b1 fs1 where s: "step may_open path B b fs = (b1, fs1)"
      by (cases "step may_open path B b fs")
    have "remaining b1 \<le> remaining b - 1" using s by (rule step_remaining)
    moreover have "remaining a' \<le> remaining a - count_list sched True \<and>
                   remaining b' \<le> remaining b1 - count_list sched False"
      using Cons.prems False s by (intro Cons.IH [of a b1 fs1]) simp
    ultimately show ?thesis using False by (simp; arith)
  qed
qed

lemma remaining_ended: "remaining a = 0 \<Longrightarrow> ended a"
  by (cases a) auto

text \<open>
  C5. If the lock file does not exist, the constructor raises nothing and leaves the
  file in existence with mode \<open>0o777\<close>, so that every user may read and write it, and
  a later construction by any process changes nothing. When two processes run the
  constructor at the same time from a state without the file, then in every
  interleaving of their steps the file exists and is readable and writable by every
  user once both have left the constructor (one of them possibly by an exception), and
  both have left it once each has taken four steps.
\<close>

theorem lock_file_initialised:
  assumes "\<not> exists fs (lock_path tmp)"
  shows "(\<exists>fs1. init may_open (lock_path tmp) P fs = (None, fs1) \<and>
            world_writable fs1 (lock_path tmp) \<and>
            init may_open (lock_path tmp) Q fs1 = (None, fs1)) \<and>
         (\<forall>sched a b fs'.
            run may_open (lock_path tmp) A B sched (AtExists, AtExists, fs) = (a, b, fs') \<longrightarrow>
              (ended a \<and> ended b \<longrightarrow> world_writable fs' (lock_path tmp)) \<and>
              (4 \<le> count_list sched True \<and> 4 \<le> count_list sched False \<longrightarrow>
                 ended a \<and> ended b))"
proof (intro conjI allI impI)
  obtain fs1 where i: "init may_open (lock_path tmp) P fs = (None, fs1)"
    and f: "fs1 (lock_path tmp) = Some \<lparr>owner = uid P, mode = 511, data = []\<rparr>"
    using init_creates [OF assms] by blast
  have "world_writable fs1 (lock_path tmp)" using f by (simp add: world_writable_def)
  moreover have "init may_open (lock_path tmp) Q fs1 = (None, fs1)"
    using f by (simp add: init_existing exists_def)
  ultimately show "\<exists>fs1. init may_open (lock_path tmp) P fs = (None, fs1) \<and>
            world_writable fs1 (lock_path tmp) \<and>
            init may_open (lock_path tmp) Q fs1 = (None, fs1)"
    using i by blast
next
  fix sched a b fs'
  assume r: "run may_open (lock_path tmp) A B sched (AtExists, AtExists, fs) = (a, b, fs')"
  have "race_inv (lock_path tmp) A B (AtExists, AtExists, fs)"
    using assms by (simp add: race_inv_def exists_def)
  then have inv: "race_inv (lock_path tmp) A B (a, b, fs')"
    using run_inv [of "lock_path tmp" A B "(AtExists, AtExists, fs)" may_open sched] r by simp
  {
    assume "ended a \<and> ended b"
    then show "world_writable fs' (lock_path tmp)" using inv inv_ended by blast
  }
  {
    assume "4 \<le> count_list sched True \<and> 4 \<le> count_list sched False"
    then have "remaining a = 0 \<and> remaining b = 0"
      using run_remaining [OF r] by simp
    then show "ended a" and "ended b" by (simp_all add: remaining_ended)
  }
qed

theorem lock_file_initialised_witness:
  "\<not> exists Map.empty (lock_path ''/tmp'') \<and>
   run mode_bits_allow (lock_path ''/tmp'') alice bob
     [True, False, True, False, True, False, True, False] (AtExists, AtExists, Map.empty) =
     (Finished, Raised PermissionError,
      [''/tmp/asm_lock'' \<mapsto> \<lparr>owner = 1000, mode = 511, data = []\<rparr>]) \<and>
   world_writable [''/tmp/asm_lock'' \<mapsto> \<lparr>owner = 1000, mode = 511, data = []\<rparr>]
     (lock_path ''/tmp'')"
proof -
  have ne: "\<not> exists Map.empty (lock_path ''/tmp'')" by (simp add: exists_def)
  have r: "run mode_bits_allow (lock_path ''/tmp'') alice bob
     [True, False, True, False, True, False, True, False] (AtExists, AtExists, Map.empty) =
     (Finished, Raised PermissionError,
      [''/tmp/asm_lock'' \<mapsto> \<lparr>owner = 1000, mode = 511, data = []\<rparr>])"
    by (simp add: exists_def open_w_def chmod_def lock_path_def join_def alice_def bob_def
          mode_bits_allow_def)
  have e: "ended Finished" "ended (Raised PermissionError)" by simp_all
  have "world_writable [''/tmp/asm_lock'' \<mapsto> \<lparr>owner = 1000, mode = 511, data = []\<rparr>]
     (lock_path ''/tmp'')"
    using lock_file_initialised [OF ne, where may_open = mode_bits_allow and A = alice and B = bob]
      r e by blast
  then show ?thesis using ne r by simp
qed

section \<open>Properties of the guarded region\<close>

lemma try_body_trace:
  "\<exists>mid r. try_body main_functions printer act = (Invoke act # mid, r) \<and> list_all is_print mid"
  by (auto simp: try_body_def split: sum.splits result.splits option.splits)

lemma try_except_trace:
  "list_all is_print mid \<Longrightarrow>
   \<exists>mid' ex. try_except printer (Invoke act # mid, r) = (Invoke act # mid', ex) \<and>
      list_all is_print mid'"
  by (auto simp: try_except_def split: sum.splits exn.splits option.splits)

lemma get_error_code_range: "1 \<le> get_error_code c \<and> get_error_code c \<le> 255"
  by (simp add: get_error_code_def less_imp_le)

text \<open>
  C7. When the acquisition of the lock raises, \<open>main\<close> raises the same exception and
  no command function has been invoked. Otherwise the execution begins with the
  acquisition, which comes before the invocation of the command function, and ends with
  the release, on every way out of the guarded region: a return, an \<open>AsmException\<close>
  handled by the \<open>except\<close> clause, or any other exception; in between there is
  nothing but printing.
\<close>

theorem lock_brackets_command:
  "(enter = Some e \<longrightarrow> main enter main_functions printer act = ([], Raise e)) \<and>
   (enter = None \<longrightarrow>
      (\<exists>mid ex. main enter main_functions printer act =
                  (Acquire # Invoke act # mid @ [Release], ex) \<and> list_all is_print mid))"
proof (intro conjI impI)
  assume "enter = Some e"
  then show "main enter main_functions printer act = ([], Raise e)"
    by (simp add: main_def with_lock_def)
next
  assume n: "enter = None"
  obtain mid r where b: "try_body main_functions printer act = (Invoke act # mid, r)"
    and m: "list_all is_print mid"
    using try_body_trace by blast
  obtain mid' ex where "try_except printer (Invoke act # mid, r) = (Invoke act # mid', ex)"
    and "list_all is_print mid'"
    using try_except_trace [OF m] by blast
  then show "\<exists>mid ex. main enter main_functions printer act =
                  (Acquire # Invoke act # mid @ [Release], ex) \<and> list_all is_print mid"
    using n b by (simp add: main_def with_lock_def)
qed

theorem lock_brackets_command_witness:
  "main (Some (OtherException ''ThreadError'')) not_found quiet Remove =
     ([], Raise (OtherException ''ThreadError'')) \<and>
   main None not_found quiet Remove =
     ([Acquire, Invoke Remove, Print ''SkillNotFound: weather'', Release], Return 50)"
proof -
  have a: "main None not_found quiet Remove =
     ([Acquire, Invoke Remove, Print ''SkillNotFound: weather'', Release], Return 50)"
    by (simp add: main_def with_lock_def try_except_def try_body_def not_found_def quiet_def
          get_error_code_def)
  show ?thesis
    using lock_brackets_command
      [of "Some (OtherException ''ThreadError'')" "OtherException ''ThreadError''"
        not_found quiet Remove] a
    by simp
qed

end
